theory Spec2Isabelle
  imports Main "HOL-Library.Multiset" "HOL-Library.Product_Lexorder"
begin

section \<open>Wrapper functions of the spelling and grammar checker (wrappers.py)\<close>

text \<open>
  The development embeds the functions of \<^verbatim>\<open>src/reynir_correct/wrappers.py\<close>
  that segment a token stream into sentences, track character offsets, splice
  the suggestions of annotations into a sentence's token list and render the
  result in the text, json, csv and m2 formats.

  Conventions of the embedding:
  \<^item> a Python \<^verbatim>\<open>str\<close> is a sequence of code points, and \<^verbatim>\<open>len\<close> counts
    code points; it is modelled as a list of natural numbers (the code points),
    and string literals of the source are written with \<open>lit\<close>;
  \<^item> Python integers are \<open>int\<close>;
  \<^item> a raised exception is the \<open>Inl\<close> branch of a sum type;
  \<^item> functions of other packages (the tokenizer's \<^verbatim>\<open>detokenize\<close>, the
    checker's \<^verbatim>\<open>check_tokens\<close>, \<^verbatim>\<open>json.dumps\<close>, the rendering of an
    annotation by \<^verbatim>\<open>str\<close>) are parameters of the model, and the checker's
    result for a sentence is part of the input.
\<close>

subsection \<open>Strings\<close>

type_synonym str = "nat list"

definition lit :: "string \<Rightarrow> str" where
  "lit s = map of_char s"

text \<open>The code points of the backslash and of the double quote.\<close>

definition BACKSLASH :: nat where
  "BACKSLASH = 92"

definition DQUOTE :: nat where
  "DQUOTE = 34"

text \<open>
  \<^verbatim>\<open>s.replace(old, new)\<close> for a pattern \<open>old\<close> of one code point: every
  occurrence is replaced, from left to right.
\<close>

fun replace1 :: "nat \<Rightarrow> str \<Rightarrow> str \<Rightarrow> str" where
  "replace1 old new [] = []"
| "replace1 old new (c # cs) =
     (if c = old then new @ replace1 old new cs else c # replace1 old new cs)"

text \<open>\<^verbatim>\<open>sep.join(xs)\<close>\<close>

fun join :: "str \<Rightarrow> str list \<Rightarrow> str" where
  "join sep [] = []"
| "join sep [x] = x"
| "join sep (x # y # ys) = x @ sep @ join sep (y # ys)"

text \<open>
  Truthiness of an optional string: \<^verbatim>\<open>None\<close> and the empty string are false.
  \<open>py_or a b\<close> is \<^verbatim>\<open>a or b\<close> for an optional string \<open>a\<close>.
\<close>

fun truthy :: "str option \<Rightarrow> bool" where
  "truthy None = False"
| "truthy (Some s) = (s \<noteq> [])"

definition py_or :: "str option \<Rightarrow> str option \<Rightarrow> str option" where
  "py_or a b = (if truthy a then a else b)"

subsection \<open>quote\<close>

text \<open>
  \<^verbatim>\<open>
  def quote(s: str) -> str:
      if not s:
          return '""'
      return '"' + s.replace("\\", "\\\\").replace('"', '\\"') + '"'
  \<close>
  The argument is optional in the model: callers pass \<^verbatim>\<open>None\<close> too.
\<close>

definition quote :: "str option \<Rightarrow> str" where
  "quote s =
     (if \<not> truthy s then [DQUOTE, DQUOTE]
      else [DQUOTE]
           @ replace1 DQUOTE [BACKSLASH, DQUOTE]
               (replace1 BACKSLASH [BACKSLASH, BACKSLASH] (the s))
           @ [DQUOTE])"

text \<open>
  The reader of a quoted string, written from the specification's words
  (``unescaping the result reproduces \<open>s\<close>''); the source has no such function.
  A backslash makes the next code point literal; \<open>unquote\<close> removes the
  enclosing double quotes and fails when they are missing.
\<close>

fun unescape :: "str \<Rightarrow> str" where
  "unescape [] = []"
| "unescape [c] = [c]"
| "unescape (c # d # cs) =
     (if c = BACKSLASH then d # unescape cs else c # unescape (d # cs))"

definition unquote :: "str \<Rightarrow> str option" where
  "unquote q =
     (if 2 \<le> length q \<and> hd q = DQUOTE \<and> last q = DQUOTE
      then Some (unescape (butlast (tl q))) else None)"

subsection \<open>Tokens and sentence_stream\<close>

text \<open>
  A token (\<^verbatim>\<open>CorrectToken\<close>) with the fields the wrappers read: the kind (an
  integer constant of \<^verbatim>\<open>TOK\<close>), the current text and the original text,
  both optional.
\<close>

record token =
  kind :: int
  "txt" :: "str option"
  original :: "str option"

text \<open>
  \<^verbatim>\<open>
  def sentence_stream(**options):
      curr_sent = []
      ...
      for t in errtokenize(gen, **options):
          curr_sent.append(t)
          if t.kind in TOK.END:
              yield curr_sent
              curr_sent = []
      if curr_sent:
          yield curr_sent
  \<close>
  The tokens produced by \<^verbatim>\<open>errtokenize\<close> are the input list, the set
  \<^verbatim>\<open>TOK.END\<close> of the tokenizer package is the parameter \<open>END\<close>, and the
  generator is the list of the sentences it yields, in order.
\<close>

fun sentence_loop :: "int set \<Rightarrow> token list \<Rightarrow> token list \<Rightarrow> token list list" where
  "sentence_loop END curr_sent [] = (if curr_sent \<noteq> [] then [curr_sent] else [])"
| "sentence_loop END curr_sent (t # ts) =
     (if kind t \<in> END
      then (curr_sent @ [t]) # sentence_loop END [] ts
      else sentence_loop END (curr_sent @ [t]) ts)"

definition sentence_stream :: "int set \<Rightarrow> token list \<Rightarrow> token list list" where
  "sentence_stream END toks = sentence_loop END [] toks"

text \<open>A sentence is well delimited when no token before its last is a terminator.\<close>

definition inner_clean :: "int set \<Rightarrow> token list \<Rightarrow> bool" where
  "inner_clean END s = (\<forall>t \<in> set (butlast s). kind t \<notin> END)"

subsection \<open>Annotations and their order\<close>

text \<open>
  An annotation (\<^verbatim>\<open>Annotation\<close>) with the fields the wrappers read. The
  field \<^verbatim>\<open>original\<close> of an annotation is \<open>ann_original\<close> here, since
  tokens have a field of that name too.
\<close>

record annotation =
  start :: int
  "end" :: int
  code :: str
  "text" :: str
  detail :: "str option"
  suggest :: "str option"
  suggestlist :: "str list option"
  ann_original :: "str option"

text \<open>The sort key \<^verbatim>\<open>lambda ann: (ann.start, ann.end)\<close>; pairs are compared
  lexicographically, as Python compares tuples.\<close>

definition sort_keyfn :: "annotation \<Rightarrow> int \<times> int" where
  "sort_keyfn ann = (start ann, end ann)"

text \<open>
  \<^verbatim>\<open>a.sort(key=...)\<close> and \<^verbatim>\<open>sorted(a, key=..., reverse=True)\<close>. Python's
  sort is stable: elements with equal keys keep their relative order, also
  with \<^verbatim>\<open>reverse=True\<close>, which CPython implements by reversing the list,
  sorting it stably in ascending order and reversing the result. The stable
  ascending sort is the insertion sort \<open>sort_key\<close> of the library.
\<close>

definition sort_ascending :: "annotation list \<Rightarrow> annotation list" where
  "sort_ascending a = sort_key sort_keyfn a"

definition sorted_reverse :: "annotation list \<Rightarrow> annotation list" where
  "sorted_reverse a = rev (sort_key sort_keyfn (rev a))"

text \<open>
  Two annotations overlap when their token ranges share a position. A list of
  annotations is non-overlapping when it has no repeated entry and no two
  different entries overlap; it is index-correct for a token list of \<open>n\<close>
  entries (the sentence-begin token included) when every range satisfies
  \<open>0 \<le> start \<le> end\<close> and the list position \<open>end + 1\<close> exists.
\<close>

definition overlap :: "annotation \<Rightarrow> annotation \<Rightarrow> bool" where
  "overlap x y = (start x \<le> end y \<and> start y \<le> end x)"

definition non_overlapping :: "annotation list \<Rightarrow> bool" where
  "non_overlapping a =
     (distinct a \<and> (\<forall>x \<in> set a. \<forall>y \<in> set a. x \<noteq> y \<longrightarrow> \<not> overlap x y))"

definition index_correct :: "nat \<Rightarrow> annotation list \<Rightarrow> bool" where
  "index_correct n a =
     (\<forall>x \<in> set a. 0 \<le> start x \<and> start x \<le> end x \<and> end x + 1 < int n)"

subsection \<open>Splicing the suggestions into the token list\<close>

datatype py_error = IndexError | KeyError | AssertionError

text \<open>
  \<^verbatim>\<open>xs[i]\<close> on a list of \<open>n\<close> entries: a negative index counts from the
  end, an index out of range raises \<^verbatim>\<open>IndexError\<close>. The result is the
  position addressed.
\<close>

definition py_index :: "nat \<Rightarrow> int \<Rightarrow> py_error + nat" where
  "py_index n i =
     (let j = (if i < 0 then int n + i else i)
      in if 0 \<le> j \<and> j < int n then Inr (nat j) else Inl IndexError)"

text \<open>
  A slice bound on a list of \<open>n\<close> entries: a negative bound counts from the
  end, and every bound is clamped to \<open>0 .. n\<close>. \<^verbatim>\<open>del xs[lo:hi]\<close> removes
  the positions from \<open>lo\<close> up to but excluding \<open>hi\<close>, and nothing when the
  clamped range is empty; it never raises.
\<close>

definition slice_bound :: "nat \<Rightarrow> int \<Rightarrow> nat" where
  "slice_bound n i =
     (if i < 0 then nat (max (int n + i) 0) else nat (min i (int n)))"

definition del_slice :: "'a list \<Rightarrow> int \<Rightarrow> int \<Rightarrow> 'a list" where
  "del_slice xs lo hi =
     (let l = slice_bound (length xs) lo; h = slice_bound (length xs) hi
      in if l < h then take l xs @ drop h xs else xs)"

text \<open>
  The body of the splicing loop, the same in \<^verbatim>\<open>check_grammar\<close> and
  \<^verbatim>\<open>test_grammar\<close>:
  \<^verbatim>\<open>
  for xann in arev:
      if xann.suggest is None:
          continue
      cleantoklist[xann.start + 1].txt = xann.suggest
      if xann.end > xann.start:
          del cleantoklist[xann.start + 2 : xann.end + 2]
  \<close>
  Tokens are values here: the token objects of the working copy are those of
  the sentence's token list, which the wrappers do not read again after the
  loop.
\<close>

definition splice_step :: "annotation \<Rightarrow> token list \<Rightarrow> py_error + token list" where
  "splice_step xann cleantoklist =
     (case suggest xann of
        None \<Rightarrow> Inr cleantoklist
      | Some s \<Rightarrow>
          (case py_index (length cleantoklist) (start xann + 1) of
             Inl e \<Rightarrow> Inl e
           | Inr j \<Rightarrow>
               (let written = cleantoklist[j := (cleantoklist ! j)\<lparr>txt := Some s\<rparr>]
                in if end xann > start xann
                   then Inr (del_slice written (start xann + 2) (end xann + 2))
                   else Inr written)))"

fun splice_loop :: "annotation list \<Rightarrow> token list \<Rightarrow> py_error + token list" where
  "splice_loop [] cleantoklist = Inr cleantoklist"
| "splice_loop (xann # arev) cleantoklist =
     (case splice_step xann cleantoklist of
        Inl e \<Rightarrow> Inl e
      | Inr cleantoklist' \<Rightarrow> splice_loop arev cleantoklist')"

text \<open>
  The pass on a sentence: the annotations are sorted in place in ascending
  order, \<open>arev\<close> is the sorted copy in descending order, and the loop runs on a
  copy of the token list.
\<close>

definition splice :: "annotation list \<Rightarrow> token list \<Rightarrow> py_error + token list" where
  "splice a toklist = splice_loop (sorted_reverse (sort_ascending a)) toklist"

subsection \<open>Character offsets\<close>

text \<open>\<^verbatim>\<open>len(t.original or t.txt or "")\<close>\<close>

definition tok_len :: "token \<Rightarrow> int" where
  "tok_len t =
     int (length (case py_or (py_or (original t) (txt t)) (Some []) of
                    Some s \<Rightarrow> s | None \<Rightarrow> []))"

text \<open>
  \<^verbatim>\<open>
  token_offsets = dict()
  for ix, t in enumerate(toklist):
      token_offsets[ix] = offset
      offset += len(t.original or t.txt or "")
  \<close>
  The loop returns the dictionary and the running offset after the sentence.
\<close>

fun offsets_loop ::
  "(int \<rightharpoonup> int) \<Rightarrow> int \<Rightarrow> int \<Rightarrow> token list \<Rightarrow> (int \<rightharpoonup> int) \<times> int" where
  "offsets_loop token_offsets offset ix [] = (token_offsets, offset)"
| "offsets_loop token_offsets offset ix (t # ts) =
     offsets_loop (token_offsets(ix \<mapsto> offset)) (offset + tok_len t) (ix + 1) ts"

definition track_offsets :: "int \<Rightarrow> token list \<Rightarrow> (int \<rightharpoonup> int) \<times> int" where
  "track_offsets offset toklist = offsets_loop Map.empty offset 0 toklist"

text \<open>
  The offsets recorded over a document: the running offset started at \<open>offset\<close>
  is carried from each sentence to the next, and the recorded offsets of all
  tokens are listed in document order.
\<close>

fun recorded_offsets :: "int \<Rightarrow> token list list \<Rightarrow> int list" where
  "recorded_offsets offset [] = []"
| "recorded_offsets offset (toklist # rest) =
     map (\<lambda>ix. the (fst (track_offsets offset toklist) (int ix))) [0 ..< length toklist]
     @ recorded_offsets (snd (track_offsets offset toklist)) rest"

subsection \<open>check_grammar\<close>

text \<open>
  The checker's result for a sentence, with the fields the wrappers read. The
  parse tree is only tested for \<^verbatim>\<open>None\<close>; a terminal is a pair of its
  token index and its text.
\<close>

record checked_sentence =
  tokens :: "token list"
  tree :: "unit option"
  terminals :: "(int \<times> str) list option"
  tidy_text :: str
  annotations :: "annotation list"

text \<open>The dictionaries \<^verbatim>\<open>AnnTokenDict\<close>, \<^verbatim>\<open>AnnDict\<close> and
  \<^verbatim>\<open>AnnResultDict\<close>; their keys are prefixed where a record of the model
  has a field of the same name.\<close>

record ann_token_dict =
  t_k :: int
  t_x :: "str option"
  t_o :: "str option"

record ann_dict =
  d_start :: int
  d_end :: int
  start_char :: int
  end_char :: int
  d_code :: str
  d_text :: str
  d_detail :: str
  d_suggest :: str

record ann_result_dict =
  r_original :: str
  r_corrected :: str
  r_annotations :: "ann_dict list"
  r_tokens :: "ann_token_dict list"

text \<open>
  The functions of other packages that \<^verbatim>\<open>check_grammar\<close> calls:
  \<^verbatim>\<open>check_tokens(toklist, **inneroptions)\<close>, \<^verbatim>\<open>detokenize(toks, normalize=True)\<close>,
  \<^verbatim>\<open>str(annotation)\<close>, \<^verbatim>\<open>json_dumps\<close>, and the rendering of an optional list
  of strings by \<^verbatim>\<open>str.format\<close>. The set \<^verbatim>\<open>TOK.END\<close> is with them.
\<close>

record externals =
  TOK_END :: "int set"
  check_tokens :: "token list \<Rightarrow> checked_sentence option"
  detokenize :: "token list \<Rightarrow> str"
  ann_str :: "annotation \<Rightarrow> str"
  json_dumps :: "ann_result_dict \<Rightarrow> str"
  format_suggestlist :: "str list option \<Rightarrow> str"

text \<open>The options read by \<^verbatim>\<open>check_grammar\<close>: the format and the
  annotation echo, with the values that \<^verbatim>\<open>options.get\<close> returns for them
  (its defaults are \<^verbatim>\<open>"json"\<close> and \<^verbatim>\<open>False\<close>), and \<^verbatim>\<open>print_all\<close>, which
  is optional here because the source reads it with two defaults:
  \<^verbatim>\<open>options.get("print_all", False)\<close> in the annotation echo and
  \<^verbatim>\<open>options.get("print_all", True)\<close> at the end of \<^verbatim>\<open>check_grammar\<close>.\<close>

record options =
  format :: str
  opt_annotations :: bool
  print_all :: "bool option"

definition get_print_all :: "options \<Rightarrow> bool \<Rightarrow> bool" where
  "get_print_all opts dflt = (case print_all opts of None \<Rightarrow> dflt | Some b \<Rightarrow> b)"

definition default_options :: options where
  "default_options = \<lparr>format = lit ''json'', opt_annotations = False, print_all = None\<rparr>"

text \<open>\<^verbatim>\<open>str(n)\<close> for an integer, and \<^verbatim>\<open>"{}".format(v)\<close> for an optional
  string: \<^verbatim>\<open>None\<close> is rendered as the word \<^verbatim>\<open>None\<close>.\<close>

fun str_nat :: "nat \<Rightarrow> str" where
  "str_nat n = (if n < 10 then [48 + n] else str_nat (n div 10) @ [48 + n mod 10])"

definition str_int :: "int \<Rightarrow> str" where
  "str_int i = (if i < 0 then lit ''-'' @ str_nat (nat (- i)) else str_nat (nat i))"

fun format_opt :: "str option \<Rightarrow> str" where
  "format_opt None = lit ''None''"
| "format_opt (Some s) = s"

text \<open>
  The token dictionaries of a checked sentence:
  \<^verbatim>\<open>
  if sent.tree is None:
      tokens = [AnnTokenDict(k=d.kind, x=d.txt, o=d.original or d.txt)
                for d in sent.tokens]
  else:
      assert sent.terminals is not None
      token_map = {t.index: t.text for t in sent.terminals}
      tokens = [AnnTokenDict(k=d.kind, x=token_map.get(ix, d.txt), o=d.original or d.txt)
                for ix, d in enumerate(sent.tokens)]
  \<close>
  In a dictionary comprehension a later entry replaces an earlier one with the
  same key.
\<close>

definition token_dicts :: "checked_sentence \<Rightarrow> py_error + ann_token_dict list" where
  "token_dicts sent =
     (case tree sent of
        None \<Rightarrow>
          Inr (map (\<lambda>d. \<lparr>t_k = kind d, t_x = txt d, t_o = py_or (original d) (txt d)\<rparr>)
                 (tokens sent))
      | Some _ \<Rightarrow>
          (case terminals sent of
             None \<Rightarrow> Inl AssertionError
           | Some ts \<Rightarrow>
               (let token_map = map_of (rev ts)
                in Inr (map (\<lambda>(ix, d).
                          \<lparr>t_k = kind d,
                           t_x = (case token_map (int ix) of Some s \<Rightarrow> Some s | None \<Rightarrow> txt d),
                           t_o = py_or (original d) (txt d)\<rparr>)
                        (enumerate 0 (tokens sent))))))"

text \<open>
  One entry of the json annotation list:
  \<^verbatim>\<open>
  AnnDict(start=ann.start, end=ann.end,
          start_char=token_offsets[ann.start],
          end_char=(token_offsets[ann.end + 1] if ann.end + 1 < len_tokens else offset) - 1,
          code=ann.code, text=ann.text,
          detail=ann.detail or "", suggest=ann.suggest or "")
  \<close>
  A key missing from the dictionary raises \<^verbatim>\<open>KeyError\<close>.
\<close>

definition lookup :: "(int \<rightharpoonup> int) \<Rightarrow> int \<Rightarrow> py_error + int" where
  "lookup token_offsets key =
     (case token_offsets key of None \<Rightarrow> Inl KeyError | Some v \<Rightarrow> Inr v)"

definition or_empty :: "str option \<Rightarrow> str" where
  "or_empty s = (if truthy s then the s else [])"

definition json_annotation ::
  "(int \<rightharpoonup> int) \<Rightarrow> nat \<Rightarrow> int \<Rightarrow> annotation \<Rightarrow> py_error + ann_dict" where
  "json_annotation token_offsets len_tokens offset ann =
     (case lookup token_offsets (start ann) of
        Inl e \<Rightarrow> Inl e
      | Inr sc \<Rightarrow>
          (case (if end ann + 1 < int len_tokens
                 then lookup token_offsets (end ann + 1) else Inr offset) of
             Inl e \<Rightarrow> Inl e
           | Inr ec \<Rightarrow>
               Inr \<lparr>d_start = start ann, d_end = end ann,
                    start_char = sc, end_char = ec - 1,
                    d_code = code ann, d_text = text ann,
                    d_detail = or_empty (detail ann),
                    d_suggest = or_empty (suggest ann)\<rparr>))"

fun json_annotations ::
  "(int \<rightharpoonup> int) \<Rightarrow> nat \<Rightarrow> int \<Rightarrow> annotation list \<Rightarrow> py_error + ann_dict list" where
  "json_annotations token_offsets len_tokens offset [] = Inr []"
| "json_annotations token_offsets len_tokens offset (ann # a) =
     (case json_annotation token_offsets len_tokens offset ann of
        Inl e \<Rightarrow> Inl e
      | Inr d \<Rightarrow>
          (case json_annotations token_offsets len_tokens offset a of
             Inl e \<Rightarrow> Inl e
           | Inr ds \<Rightarrow> Inr (d # ds)))"

text \<open>The lines of the csv and m2 formats for one annotation:
  \<^verbatim>\<open>"{},{},{},{},{},{}".format(cann.code, cann.original, cann.suggest,
      cann.start, cann.end, cann.suggestlist)\<close> and
  \<^verbatim>\<open>"A {0} {1}|||{2}|||{3}|||REQUIRED|||-NONE-|||0".format(
      mann.start, mann.end, mann.code, mann.suggest)\<close>.\<close>

definition csv_line :: "externals \<Rightarrow> annotation \<Rightarrow> str" where
  "csv_line ext cann =
     code cann @ lit '','' @ format_opt (ann_original cann) @ lit '',''
     @ format_opt (suggest cann) @ lit '','' @ str_int (start cann) @ lit '',''
     @ str_int (end cann) @ lit '','' @ format_suggestlist ext (suggestlist cann)"

definition m2_line :: "annotation \<Rightarrow> str" where
  "m2_line mann =
     lit ''A '' @ str_int (start mann) @ lit '' '' @ str_int (end mann)
     @ lit ''|||'' @ code mann @ lit ''|||'' @ format_opt (suggest mann)
     @ lit ''|||REQUIRED|||-NONE-|||0''"

text \<open>
  The state that \<^verbatim>\<open>check_grammar\<close> carries from sentence to sentence: the
  accumulated output entries, the running character offset and the buffered
  annotation lines.
\<close>

record cg_state =
  accumul :: "str list"
  doc_offset :: int
  annlist :: "str list"

definition init_state :: cg_state where
  "init_state = \<lparr>accumul = [], doc_offset = 0, annlist = []\<rparr>"

definition NL :: str where
  "NL = [10]"

definition SP :: str where
  "SP = [32]"

text \<open>
  The annotation echo of the text format, in both functions:
  \<^verbatim>\<open>
  if options.get("annotations", False):
      for aann in a:
          annlist.append(str(aann))
      if annlist and not options.get("print_all", False):
          txt = txt + "\n" + "\n".join(annlist)
          annlist = []
  \<close>
  It returns the text and the buffer.
\<close>

definition echo_annotations ::
  "externals \<Rightarrow> options \<Rightarrow> annotation list \<Rightarrow> str \<Rightarrow> str list \<Rightarrow> str \<times> str list" where
  "echo_annotations ext opts a txt0 annlist0 =
     (if opt_annotations opts
      then (let annlist1 = annlist0 @ map (ann_str ext) a
            in if annlist1 \<noteq> [] \<and> \<not> get_print_all opts False
               then (txt0 @ NL @ join NL annlist1, [])
               else (txt0, annlist1))
      else (txt0, annlist0))"

text \<open>
  The body of the loop of \<^verbatim>\<open>check_grammar\<close> over the sentences, lines 400
  to 522 of the source, in the order of the source: the checker is called and
  a sentence without a result is skipped; the token dictionaries are built;
  the offsets of the sentence are recorded; the sentence is detokenized; the
  annotations are sorted; then the entry of the chosen format is appended.
  A format other than the five tested appends nothing.
\<close>

definition check_sentence ::
  "externals \<Rightarrow> options \<Rightarrow> cg_state \<Rightarrow> token list \<Rightarrow> py_error + cg_state" where
  "check_sentence ext opts st toklist =
     (let len_tokens = length toklist
      in case check_tokens ext toklist of
           None \<Rightarrow> Inr st
         | Some sent \<Rightarrow>
             (case token_dicts sent of
                Inl e \<Rightarrow> Inl e
              | Inr token_list \<Rightarrow>
                  (let token_offsets = fst (track_offsets (doc_offset st) toklist);
                       offset = snd (track_offsets (doc_offset st) toklist);
                       cleaned = detokenize ext toklist;
                       a = sort_ascending (annotations sent)
                   in if format opts = lit ''text'' \<or> format opts = lit ''textplustoks''
                      then (case splice_loop (sorted_reverse a) toklist of
                              Inl e \<Rightarrow> Inl e
                            | Inr cleantoklist \<Rightarrow>
                                (let echoed = echo_annotations ext opts a
                                       (detokenize ext cleantoklist) (annlist st)
                                 in Inr \<lparr>accumul = accumul st @ [fst echoed],
                                         doc_offset = offset,
                                         annlist = snd echoed\<rparr>))
                      else if format opts = lit ''json''
                      then (case json_annotations token_offsets len_tokens offset a of
                              Inl e \<Rightarrow> Inl e
                            | Inr anns \<Rightarrow>
                                Inr \<lparr>accumul = accumul st @
                                        [json_dumps ext
                                           \<lparr>r_original = cleaned,
                                            r_corrected = tidy_text sent,
                                            r_annotations = anns,
                                            r_tokens = token_list\<rparr>],
                                     doc_offset = offset,
                                     annlist = annlist st\<rparr>)
                      else if format opts = lit ''csv''
                      then Inr \<lparr>accumul = accumul st @ map (csv_line ext) a,
                                doc_offset = offset,
                                annlist = annlist st\<rparr>
                      else if format opts = lit ''m2''
                      then Inr \<lparr>accumul = accumul st @ [lit ''S '' @ cleaned]
                                          @ map m2_line a @ [[]],
                                doc_offset = offset,
                                annlist = annlist st\<rparr>
                      else Inr \<lparr>accumul = accumul st,
                                doc_offset = offset,
                                annlist = annlist st\<rparr>)))"

fun check_loop ::
  "externals \<Rightarrow> options \<Rightarrow> cg_state \<Rightarrow> token list list \<Rightarrow> py_error + cg_state" where
  "check_loop ext opts st [] = Inr st"
| "check_loop ext opts st (toklist # rest) =
     (case check_sentence ext opts st toklist of
        Inl e \<Rightarrow> Inl e
      | Inr st' \<Rightarrow> check_loop ext opts st' rest)"

text \<open>
  The end of \<^verbatim>\<open>check_grammar\<close>:
  \<^verbatim>\<open>
  if options.get("print_all", True):
      accumstr = " ".join(accumul)
      if annlist:
          accumstr = accumstr + "\n" + "\n".join(annlist)
  else:
      accumstr = "\n".join(accumul)
  return accumstr
  \<close>
\<close>

definition final_output :: "options \<Rightarrow> cg_state \<Rightarrow> str" where
  "final_output opts st =
     (if get_print_all opts True
      then (if annlist st \<noteq> []
            then join SP (accumul st) @ NL @ join NL (annlist st)
            else join SP (accumul st))
      else join NL (accumul st))"

definition check_grammar :: "externals \<Rightarrow> options \<Rightarrow> token list \<Rightarrow> py_error + str" where
  "check_grammar ext opts toks =
     (case check_loop ext opts init_state (sentence_stream (TOK_END ext) toks) of
        Inl e \<Rightarrow> Inl e
      | Inr st \<Rightarrow> Inr (final_output opts st))"

text \<open>
  The end of \<^verbatim>\<open>check_spelling\<close>, lines 258 to 265, on its accumulated
  entries \<open>unisum\<close> and annotation lines:
  \<^verbatim>\<open>
  if print_all:
      unistr = " ".join(unisum)
      if annlist:
          unistr = unistr + "\n" + "\n".join(annlist)
  else:
      unistr = "\n".join(unisum)
  \<close>
\<close>

definition check_spelling_output :: "bool \<Rightarrow> str list \<Rightarrow> str list \<Rightarrow> str" where
  "check_spelling_output print_all_opt unisum annlist0 =
     (if print_all_opt
      then (if annlist0 \<noteq> []
            then join SP unisum @ NL @ join NL annlist0
            else join SP unisum)
      else join NL unisum)"

subsection \<open>test_grammar\<close>

text \<open>
  The body of the loop of \<^verbatim>\<open>test_grammar\<close>, lines 336 to 380, and the text
  it returns, the entries joined by newlines. The function also returns the
  list of all tokens, which is not part of this model. It reads the options
  \<^verbatim>\<open>annotations\<close> and \<^verbatim>\<open>print_all\<close>, the latter with the default
  \<^verbatim>\<open>False\<close>.
\<close>

definition test_sentence ::
  "externals \<Rightarrow> options \<Rightarrow> cg_state \<Rightarrow> token list \<Rightarrow> py_error + cg_state" where
  "test_sentence ext opts st toklist =
     (case check_tokens ext toklist of
        None \<Rightarrow> Inr st
      | Some sent \<Rightarrow>
          (let offset = snd (track_offsets (doc_offset st) toklist);
               a = sort_ascending (annotations sent)
           in case splice_loop (sorted_reverse a) toklist of
                Inl e \<Rightarrow> Inl e
              | Inr cleantoklist \<Rightarrow>
                  (let echoed = echo_annotations ext opts a
                         (detokenize ext cleantoklist) (annlist st)
                   in Inr \<lparr>accumul = accumul st @ [fst echoed],
                           doc_offset = offset,
                           annlist = snd echoed\<rparr>)))"

fun test_loop ::
  "externals \<Rightarrow> options \<Rightarrow> cg_state \<Rightarrow> token list list \<Rightarrow> py_error + cg_state" where
  "test_loop ext opts st [] = Inr st"
| "test_loop ext opts st (toklist # rest) =
     (case test_sentence ext opts st toklist of
        Inl e \<Rightarrow> Inl e
      | Inr st' \<Rightarrow> test_loop ext opts st' rest)"

definition test_grammar_text :: "externals \<Rightarrow> options \<Rightarrow> token list \<Rightarrow> py_error + str" where
  "test_grammar_text ext opts toks =
     (case test_loop ext opts init_state (sentence_stream (TOK_END ext) toks) of
        Inl e \<Rightarrow> Inl e
      | Inr st \<Rightarrow> Inr (join NL (accumul st)))"

subsection \<open>Example data\<close>

text \<open>
  Tokens and a terminator set for the examples: the numbers are those of the
  tokenizer package for a word (6), the beginning of a sentence (11001), the
  end of a sentence (11002) and the end of a paragraph (10002).
\<close>

definition word_tok :: "string \<Rightarrow> token" where
  "word_tok w = \<lparr>kind = 6, txt = Some (lit w), original = Some (lit w)\<rparr>"

definition begin_tok :: token where
  "begin_tok = \<lparr>kind = 11001, txt = None, original = Some []\<rparr>"

definition end_tok :: token where
  "end_tok = \<lparr>kind = 11002, txt = None, original = Some []\<rparr>"

definition example_END :: "int set" where
  "example_END = {10002, 11002}"




definition toks4 :: "token list" where
  "toks4 = [begin_tok, word_tok ''a'', word_tok ''b'', end_tok]"



text \<open>
  Stand-ins for the functions of other packages in the examples: a checker
  that returns one annotation, on the first word, for every sentence; a
  detokenizer that joins the texts of the tokens that have one with spaces;
  simple renderings of an annotation, of the json record and of a suggestion
  list. The theorems hold for any such functions, the examples fix these.
\<close>

definition ann_the :: annotation where
  "ann_the = \<lparr>start = 0, end = 0, code = lit ''S004'', text = lit ''msg'', detail = None,
           suggest = Some (lit ''the''), suggestlist = None, ann_original = Some (lit ''teh'')\<rparr>"

definition example_detokenize :: "token list \<Rightarrow> str" where
  "example_detokenize toks =
     join SP (map (\<lambda>t. or_empty (txt t)) (filter (\<lambda>t. truthy (txt t)) toks))"

definition example_checker :: "token list \<Rightarrow> checked_sentence option" where
  "example_checker toklist =
     Some \<lparr>tokens = toklist, tree = None, terminals = None, tidy_text = lit ''the'',
           annotations = [ann_the]\<rparr>"

definition example_ext :: externals where
  "example_ext =
     \<lparr>TOK_END = example_END,
      check_tokens = example_checker,
      detokenize = example_detokenize,
      ann_str = (\<lambda>a. code a @ lit '': '' @ text a),
      json_dumps = (\<lambda>r. lit ''{original: '' @ r_original r @ lit '', corrected: ''
                          @ r_corrected r @ lit ''}''),
      format_suggestlist =
        (\<lambda>l. case l of None \<Rightarrow> lit ''None''
                | Some xs \<Rightarrow> lit ''['' @ join (lit '', '') xs @ lit '']'')\<rparr>"

definition toks_teh :: "token list" where
  "toks_teh = [begin_tok, word_tok ''teh'', end_tok]"

text \<open>The same with a checker that returns no result for \<open>toks4\<close>.\<close>

definition example_ext_skip :: externals where
  "example_ext_skip =
     example_ext\<lparr>check_tokens := (\<lambda>t. if t = toks4 then None else example_checker t)\<rparr>"

definition csv_opts :: options where
  "csv_opts = \<lparr>format = lit ''csv'', opt_annotations = False, print_all = None\<rparr>"

definition m2_opts :: options where
  "m2_opts = \<lparr>format = lit ''m2'', opt_annotations = False, print_all = Some False\<rparr>"

definition text_opts :: options where
  "text_opts = \<lparr>format = lit ''text'', opt_annotations = False, print_all = Some False\<rparr>"

section \<open>Properties\<close>

subsection \<open>quote\<close>

lemma unescape_plain: "c \<noteq> BACKSLASH \<Longrightarrow> unescape (c # r) = c # unescape r"
  by (cases r) simp_all

lemma unescape_escaped: "unescape (BACKSLASH # d # r) = d # unescape r"
  by simp

lemma escape_as_concat:
  "replace1 DQUOTE [BACKSLASH, DQUOTE] (replace1 BACKSLASH [BACKSLASH, BACKSLASH] s)
   = concat (map (\<lambda>c. if c = BACKSLASH then [BACKSLASH, BACKSLASH]
                        else if c = DQUOTE then [BACKSLASH, DQUOTE] else [c]) s)"
  by (induction s) (simp_all add: BACKSLASH_def DQUOTE_def)

lemma unescape_escape:
  "unescape (replace1 DQUOTE [BACKSLASH, DQUOTE] (replace1 BACKSLASH [BACKSLASH, BACKSLASH] s)) = s"
  unfolding escape_as_concat
proof (induction s)
  case Nil
  show ?case by simp
next
  case (Cons c s)
  show ?case
  proof (cases "c = BACKSLASH \<or> c = DQUOTE")
    case True
    then show ?thesis using Cons by auto
  next
    case False
    then show ?thesis using Cons by (simp add: unescape_plain)
  qed
qed

lemma unquote_wrap: "unquote ([DQUOTE] @ e @ [DQUOTE]) = Some (unescape e)"
  by (simp add: unquote_def butlast_append)

text \<open>
  Claim C8. \<open>quote\<close> of an absent or empty string is the string of two
  double quotes. For a string \<open>s\<close> that is not empty, \<open>quote\<close> puts
  \<open>s\<close> between double quotes after replacing every backslash by two
  backslashes and then every double quote by a backslash and a double quote,
  and reading the result back (removing the enclosing quotes and undoing the
  escapes) gives \<open>s\<close>.
\<close>

theorem quote_roundtrip:
  "quote None = [DQUOTE, DQUOTE] \<and> quote (Some []) = [DQUOTE, DQUOTE] \<and>
   (s \<noteq> [] \<longrightarrow>
      quote (Some s) = [DQUOTE] @ replace1 DQUOTE [BACKSLASH, DQUOTE]
                          (replace1 BACKSLASH [BACKSLASH, BACKSLASH] s) @ [DQUOTE]
      \<and> unquote (quote (Some s)) = Some s)"
proof -
  have a: "quote None = [DQUOTE, DQUOTE]" by (simp add: quote_def)
  have b: "quote (Some []) = [DQUOTE, DQUOTE]" by (simp add: quote_def)
  have c: "quote (Some s) = [DQUOTE] @ replace1 DQUOTE [BACKSLASH, DQUOTE]
                          (replace1 BACKSLASH [BACKSLASH, BACKSLASH] s) @ [DQUOTE]" if "s \<noteq> []"
    using that by (simp add: quote_def)
  have d: "unquote (quote (Some s)) = Some s" if "s \<noteq> []"
    using c[OF that] unquote_wrap unescape_escape by simp
  show ?thesis using a b c d by blast
qed

theorem quote_roundtrip_witness:
  "lit ''a\"b'' @ [BACKSLASH] \<noteq> [] \<and>
   quote (Some (lit ''a\"b'' @ [BACKSLASH])) = lit ''\"a'' @ [BACKSLASH] @ lit ''\"b'' @ [BACKSLASH, BACKSLASH] @ lit ''\"'' \<and>
   unquote (quote (Some (lit ''a\"b'' @ [BACKSLASH]))) = Some (lit ''a\"b'' @ [BACKSLASH])"
  using quote_roundtrip [of "lit ''a\"b'' @ [BACKSLASH]"]
  by (auto simp add: lit_def BACKSLASH_def DQUOTE_def)

subsection \<open>sentence_stream\<close>

lemma concat_sentence_loop: "concat (sentence_loop END cur ts) = cur @ ts"
  by (induction ts arbitrary: cur) auto

lemma sentence_loop_nonempty: "s \<in> set (sentence_loop END cur ts) \<Longrightarrow> s \<noteq> []"
  by (induction ts arbitrary: cur) (auto split: if_splits)

lemma sentence_loop_inner_clean:
  "\<forall>t \<in> set cur. kind t \<notin> END \<Longrightarrow> s \<in> set (sentence_loop END cur ts) \<Longrightarrow> inner_clean END s"
proof (induction ts arbitrary: cur)
  case Nil
  then show ?case by (auto simp: inner_clean_def split: if_splits dest: in_set_butlastD)
next
  case (Cons t ts)
  show ?case
  proof (cases "kind t \<in> END")
    case True
    with Cons.prems have "s = cur @ [t] \<or> s \<in> set (sentence_loop END [] ts)" by auto
    then show ?thesis
    proof
      assume "s = cur @ [t]"
      then show ?thesis using Cons.prems(1) by (simp add: inner_clean_def)
    next
      assume "s \<in> set (sentence_loop END [] ts)"
      then show ?thesis using Cons.IH[of "[]"] by simp
    qed
  next
    case False
    with Cons.prems have "s \<in> set (sentence_loop END (cur @ [t]) ts)" by simp
    moreover have "\<forall>u \<in> set (cur @ [t]). kind u \<notin> END" using False Cons.prems(1) by auto
    ultimately show ?thesis using Cons.IH by blast
  qed
qed

lemma sentence_loop_terminated:
  "s \<in> set (butlast (sentence_loop END cur ts)) \<Longrightarrow> kind (last s) \<in> END"
proof (induction ts arbitrary: cur)
  case Nil
  then show ?case by (auto split: if_splits)
next
  case (Cons t ts)
  show ?case
  proof (cases "kind t \<in> END")
    case True
    then show ?thesis using Cons by (auto split: if_splits)
  next
    case False
    then show ?thesis using Cons by simp
  qed
qed

lemma length_sentence_loop:
  "length (sentence_loop END cur ts)
   = length (filter (\<lambda>t. kind t \<in> END) ts)
     + (if (ts = [] \<and> cur \<noteq> []) \<or> (ts \<noteq> [] \<and> kind (last ts) \<notin> END) then 1 else 0)"
  by (induction ts arbitrary: cur) auto

text \<open>
  Claim C7. The sentences yielded by \<open>sentence_stream\<close>, concatenated, are the
  input token stream: no token is dropped or duplicated. No yielded sentence
  is empty, and none has a terminator before its last token. Every yielded
  sentence but the last ends with a terminator, and the number of sentences is
  the number of terminators of the input, plus one when the input ends with a
  token that is not a terminator: a sentence is yielded exactly at each
  terminator, and the trailing buffer, when it is not empty, exactly once.
\<close>

theorem sentence_stream_partition:
  "concat (sentence_stream END toks) = toks \<and>
   (\<forall>s \<in> set (sentence_stream END toks). s \<noteq> [] \<and> inner_clean END s) \<and>
   (\<forall>s \<in> set (butlast (sentence_stream END toks)). kind (last s) \<in> END) \<and>
   length (sentence_stream END toks)
     = length (filter (\<lambda>t. kind t \<in> END) toks)
       + (if toks \<noteq> [] \<and> kind (last toks) \<notin> END then 1 else 0)"
proof -
  have "concat (sentence_stream END toks) = toks"
    by (simp add: sentence_stream_def concat_sentence_loop)
  moreover have "\<forall>s \<in> set (sentence_stream END toks). s \<noteq> [] \<and> inner_clean END s"
    using sentence_loop_nonempty[of _ END "[]" toks] sentence_loop_inner_clean[of "[]" END _ toks]
    by (auto simp: sentence_stream_def)
  moreover have "\<forall>s \<in> set (butlast (sentence_stream END toks)). kind (last s) \<in> END"
    using sentence_loop_terminated[of _ END "[]" toks] by (auto simp: sentence_stream_def)
  moreover have "length (sentence_stream END toks)
     = length (filter (\<lambda>t. kind t \<in> END) toks)
       + (if toks \<noteq> [] \<and> kind (last toks) \<notin> END then 1 else 0)"
    by (simp add: sentence_stream_def length_sentence_loop)
  ultimately show ?thesis by blast
qed

theorem sentence_stream_partition_witness:
  "sentence_stream example_END [word_tok ''a'', end_tok, word_tok ''b'']
     = [[word_tok ''a'', end_tok], [word_tok ''b'']] \<and>
   concat (sentence_stream example_END [word_tok ''a'', end_tok, word_tok ''b''])
     = [word_tok ''a'', end_tok, word_tok ''b''] \<and>
   [word_tok ''a'', end_tok]
     \<in> set (butlast (sentence_stream example_END [word_tok ''a'', end_tok, word_tok ''b''])) \<and>
   kind (word_tok ''a'') \<notin> example_END \<and>
   kind (last [word_tok ''a'', end_tok]) \<in> example_END \<and>
   length (sentence_stream example_END [word_tok ''a'', end_tok, word_tok ''b'']) = 2"
  using sentence_stream_partition [of example_END "[word_tok ''a'', end_tok, word_tok ''b'']"]
  by (simp add: sentence_stream_def example_END_def word_tok_def end_tok_def)

subsection \<open>Character offsets\<close>

lemma offsets_loop_snd:
  "snd (offsets_loop m off ix ts) = off + sum_list (map tok_len ts)"
  by (induction ts arbitrary: m off ix) simp_all

lemma offsets_loop_outside:
  "key < ix \<or> ix + int (length ts) \<le> key \<Longrightarrow> fst (offsets_loop m off ix ts) key = m key"
  by (induction ts arbitrary: m off ix) auto

lemma offsets_loop_fst:
  "i < length ts \<Longrightarrow>
   fst (offsets_loop m off ix ts) (ix + int i) = Some (off + sum_list (map tok_len (take i ts)))"
proof (induction ts arbitrary: m off ix i)
  case Nil
  then show ?case by simp
next
  case (Cons t ts)
  show ?case
  proof (cases i)
    case 0
    then show ?thesis by (simp add: offsets_loop_outside)
  next
    case (Suc j)
    with Cons.prems have "j < length ts" by simp
    note j = this
    have e: "ix + int i = (ix + 1) + int j" using Suc by simp
    have "fst (offsets_loop m off ix (t # ts)) (ix + int i)
          = fst (offsets_loop (m(ix \<mapsto> off)) (off + tok_len t) (ix + 1) ts) ((ix + 1) + int j)"
      by (simp only: e offsets_loop.simps)
    also have "\<dots> = Some (off + tok_len t + sum_list (map tok_len (take j ts)))"
      by (rule Cons.IH[OF j])
    also have "\<dots> = Some (off + sum_list (map tok_len (take i (t # ts))))"
      using Suc by simp
    finally show ?thesis .
  qed
qed

lemma track_offsets_fst:
  "i < length ts \<Longrightarrow>
   fst (track_offsets off ts) (int i) = Some (off + sum_list (map tok_len (take i ts)))"
  using offsets_loop_fst[of i ts Map.empty off 0] by (simp add: track_offsets_def)

lemma track_offsets_outside:
  "key < 0 \<or> int (length ts) \<le> key \<Longrightarrow> fst (track_offsets off ts) key = None"
  using offsets_loop_outside[of key 0 ts Map.empty off] by (simp add: track_offsets_def)

lemma track_offsets_snd:
  "snd (track_offsets off ts) = off + sum_list (map tok_len ts)"
  by (simp add: track_offsets_def offsets_loop_snd)

lemma tok_len_nonneg: "0 \<le> tok_len t"
  by (simp add: tok_len_def)

lemma tok_len_pos: "truthy (original t) \<or> truthy (txt t) \<Longrightarrow> 0 < tok_len t"
  by (cases "original t"; cases "txt t") (auto simp: tok_len_def py_or_def)

lemma recorded_offsets_eq:
  "recorded_offsets off sents
   = map (\<lambda>i. off + sum_list (map tok_len (take i (concat sents)))) [0 ..< length (concat sents)]"
proof (induction sents arbitrary: off)
  case Nil
  show ?case by simp
next
  case (Cons s sents)
  have a: "map (\<lambda>ix. the (fst (track_offsets off s) (int ix))) [0 ..< length s]
        = map (\<lambda>i. off + sum_list (map tok_len (take i (s @ concat sents)))) [0 ..< length s]"
    by (rule map_cong) (auto simp: track_offsets_fst)
  have b: "recorded_offsets (snd (track_offsets off s)) sents
        = map (\<lambda>i. off + sum_list (map tok_len (take i (s @ concat sents))))
            [length s ..< length s + length (concat sents)]"
  proof -
    have u: "[length s ..< length s + length (concat sents)]
          = map (\<lambda>i. i + length s) [0 ..< length (concat sents)]"
      by (simp only: map_add_upt add.commute)
    have "recorded_offsets (snd (track_offsets off s)) sents
          = map (\<lambda>i. (off + sum_list (map tok_len s)) + sum_list (map tok_len (take i (concat sents))))
              [0 ..< length (concat sents)]"
      by (simp only: Cons.IH track_offsets_snd)
    also have "\<dots> = map ((\<lambda>i. off + sum_list (map tok_len (take i (s @ concat sents)))) \<circ> (\<lambda>i. i + length s))
              [0 ..< length (concat sents)]"
      by (rule map_cong) simp_all
    also have "\<dots> = map (\<lambda>i. off + sum_list (map tok_len (take i (s @ concat sents))))
            [length s ..< length s + length (concat sents)]"
      by (simp only: u map_map)
    finally show ?thesis .
  qed
  have c: "[0 ..< length s + length (concat sents)]
           = [0 ..< length s] @ [length s ..< length s + length (concat sents)]"
    using upt_add_eq_append[of 0 "length s" "length (concat sents)"] by simp
  have "recorded_offsets off (s # sents)
        = map (\<lambda>ix. the (fst (track_offsets off s) (int ix))) [0 ..< length s]
          @ recorded_offsets (snd (track_offsets off s)) sents"
    by simp
  also have "\<dots> = map (\<lambda>i. off + sum_list (map tok_len (take i (s @ concat sents))))
                 ([0 ..< length s] @ [length s ..< length s + length (concat sents)])"
    by (simp only: a b map_append)
  finally show ?case by (simp only: c concat.simps length_append)
qed

lemma tok_len_cases:
  "tok_len t = int (length (if truthy (original t) then the (original t)
                           else if truthy (txt t) then the (txt t) else []))"
  by (cases "original t"; cases "txt t") (auto simp: tok_len_def py_or_def)

text \<open>
  Claim C9. Over the sentences whose offsets are recorded, in document order
  and with the running offset starting at zero, the recorded offset of each
  token is the sum of \<open>tok_len\<close> over all tokens before it, where
  \<open>tok_len\<close> is the length of the original text when it is present and not
  empty, else of the current text when that is present and not empty, else
  zero (lemma \<open>tok_len_cases\<close>). So the recorded offsets never decrease from
  a token to the next, and they increase strictly after a token whose
  original or current text is not empty.
\<close>

theorem offsets_invariant:
  "length (recorded_offsets 0 sents) = length (concat sents) \<and>
   (\<forall>i < length (concat sents).
      recorded_offsets 0 sents ! i = sum_list (map tok_len (take i (concat sents)))) \<and>
   (\<forall>i. Suc i < length (concat sents) \<longrightarrow>
      recorded_offsets 0 sents ! i \<le> recorded_offsets 0 sents ! Suc i \<and>
      (truthy (original (concat sents ! i)) \<or> truthy (txt (concat sents ! i)) \<longrightarrow>
         recorded_offsets 0 sents ! i < recorded_offsets 0 sents ! Suc i))"
proof -
  let ?ts = "concat sents"
  have len: "length (recorded_offsets 0 sents) = length ?ts"
    by (simp only: recorded_offsets_eq length_map length_upt minus_nat.diff_0)
  have nth: "recorded_offsets 0 sents ! i = sum_list (map tok_len (take i ?ts))"
    if "i < length ?ts" for i
    using that by (simp only: recorded_offsets_eq) simp
  have step: "recorded_offsets 0 sents ! Suc i = recorded_offsets 0 sents ! i + tok_len (?ts ! i)"
    if "Suc i < length ?ts" for i
  proof -
    from that have i: "i < length ?ts" by simp
    show ?thesis
      by (simp only: nth[OF that] nth[OF i] take_Suc_conv_app_nth[OF i]) simp
  qed
  have mono: "recorded_offsets 0 sents ! i \<le> recorded_offsets 0 sents ! Suc i"
    if "Suc i < length ?ts" for i
    using step[OF that] tok_len_nonneg[of "?ts ! i"] by simp
  have strict: "recorded_offsets 0 sents ! i < recorded_offsets 0 sents ! Suc i"
    if "Suc i < length ?ts" "truthy (original (?ts ! i)) \<or> truthy (txt (?ts ! i))" for i
    using step[OF that(1)] tok_len_pos[OF that(2)] by simp
  show ?thesis using len nth mono strict by blast
qed

theorem offsets_invariant_witness:
  "recorded_offsets 0 [[begin_tok, word_tok ''ab'', end_tok], [word_tok ''c'', end_tok]]
     = [0, 0, 2, 2, 3] \<and>
   (2::nat) < length (concat [[begin_tok, word_tok ''ab'', end_tok], [word_tok ''c'', end_tok]]) \<and>
   recorded_offsets 0 [[begin_tok, word_tok ''ab'', end_tok], [word_tok ''c'', end_tok]] ! 2
     = sum_list (map tok_len
         (take 2 (concat [[begin_tok, word_tok ''ab'', end_tok], [word_tok ''c'', end_tok]]))) \<and>
   Suc 1 < length (concat [[begin_tok, word_tok ''ab'', end_tok], [word_tok ''c'', end_tok]]) \<and>
   truthy (original
     (concat [[begin_tok, word_tok ''ab'', end_tok], [word_tok ''c'', end_tok]] ! 1)) \<and>
   recorded_offsets 0 [[begin_tok, word_tok ''ab'', end_tok], [word_tok ''c'', end_tok]] ! 1
     < recorded_offsets 0 [[begin_tok, word_tok ''ab'', end_tok], [word_tok ''c'', end_tok]] ! Suc 1"
  using offsets_invariant [of "[[begin_tok, word_tok ''ab'', end_tok], [word_tok ''c'', end_tok]]"]
  by (simp add: track_offsets_def tok_len_def py_or_def begin_tok_def word_tok_def end_tok_def
        lit_def upt_rec numeral_2_eq_2)



subsection \<open>Splicing\<close>

lemma py_index_in_range:
  "0 \<le> i \<Longrightarrow> i < int n \<Longrightarrow> py_index n i = Inr (nat i)"
  by (simp add: py_index_def)

lemma slice_bound_in_range:
  "0 \<le> i \<Longrightarrow> i \<le> int n \<Longrightarrow> slice_bound n i = nat i"
  by (simp add: slice_bound_def)

lemma del_slice_in_range:
  "0 \<le> lo \<Longrightarrow> lo < hi \<Longrightarrow> hi \<le> int (length xs) \<Longrightarrow>
   del_slice xs lo hi = take (nat lo) xs @ drop (nat hi) xs"
  by (simp add: del_slice_def slice_bound_in_range Let_def)

lemma length_del_slice_in_range:
  "0 \<le> lo \<Longrightarrow> lo < hi \<Longrightarrow> hi \<le> int (length xs) \<Longrightarrow>
   int (length (del_slice xs lo hi)) = int (length xs) - (hi - lo)"
  by (simp add: del_slice_in_range)

lemma splice_step_None: "suggest xann = None \<Longrightarrow> splice_step xann w = Inr w"
  by (simp add: splice_step_def)

lemma splice_step_single:
  assumes "suggest xann = Some s" "0 \<le> start xann" "end xann = start xann"
    "end xann + 1 < int (length w)"
  shows "splice_step xann w
         = Inr (w[nat (start xann + 1) := (w ! nat (start xann + 1))\<lparr>txt := Some s\<rparr>])"
  using assms by (simp add: splice_step_def py_index_in_range)

lemma splice_step_multi:
  assumes "suggest xann = Some s" "0 \<le> start xann" "start xann < end xann"
    "end xann + 1 < int (length w)"
  shows "splice_step xann w
         = Inr (take (nat (start xann + 2))
                  (w[nat (start xann + 1) := (w ! nat (start xann + 1))\<lparr>txt := Some s\<rparr>])
                @ drop (nat (end xann + 2))
                  (w[nat (start xann + 1) := (w ! nat (start xann + 1))\<lparr>txt := Some s\<rparr>]))"
  using assms by (simp add: splice_step_def py_index_in_range del_slice_in_range Let_def)

lemma splice_step_length:
  assumes "0 \<le> start xann" "start xann \<le> end xann" "end xann + 1 < int (length w)"
  shows "\<exists>w'. splice_step xann w = Inr w' \<and>
           int (length w') = int (length w)
              - (if suggest xann = None then 0 else end xann - start xann)"
proof (cases "suggest xann")
  case None
  then show ?thesis by (simp add: splice_step_None)
next
  case (Some s)
  show ?thesis
  proof (cases "end xann = start xann")
    case True
    then show ?thesis using Some assms splice_step_single[of xann s w] by simp
  next
    case False
    with assms have lt: "start xann < end xann" by simp
    have "int (length (take (nat (start xann + 2))
                  (w[nat (start xann + 1) := (w ! nat (start xann + 1))\<lparr>txt := Some s\<rparr>])
                @ drop (nat (end xann + 2))
                  (w[nat (start xann + 1) := (w ! nat (start xann + 1))\<lparr>txt := Some s\<rparr>])))
          = int (length w) - (end xann - start xann)"
      using assms lt by simp
    then show ?thesis using Some assms lt splice_step_multi[of xann s w] by simp
  qed
qed


lemma splice_loop_append:
  "splice_loop (xs @ ys) w
   = (case splice_loop xs w of Inl e \<Rightarrow> Inl e | Inr w' \<Rightarrow> splice_loop ys w')"
  by (induction xs arbitrary: w) (simp_all split: sum.splits)

lemma splice_loop_prefix:
  assumes "sorted_wrt (\<lambda>x y. end y < start x) (pre @ rest)"
    and "\<forall>x \<in> set (pre @ rest). 0 \<le> start x \<and> start x \<le> end x \<and> end x + 1 < int (length w0)"
  shows "\<exists>w. splice_loop pre w0 = Inr w \<and>
           int (length w) = int (length w0)
              - sum_list (map (\<lambda>x. if suggest x = None then 0 else end x - start x) pre) \<and>
           (\<forall>x \<in> set rest. end x + 1 < int (length w))"
  using assms
proof (induction pre arbitrary: w0)
  case Nil
  then show ?case by simp
next
  case (Cons p pre)
  from Cons.prems(2) have p: "0 \<le> start p" "start p \<le> end p" "end p + 1 < int (length w0)"
    by simp_all
  from splice_step_length[OF p] obtain w1 where
    w1: "splice_step p w0 = Inr w1"
        "int (length w1) = int (length w0) - (if suggest p = None then 0 else end p - start p)"
    by blast
  have sorted': "sorted_wrt (\<lambda>x y. end y < start x) (pre @ rest)"
    using Cons.prems(1) by simp
  have below: "\<forall>x \<in> set (pre @ rest). end x < start p"
    using Cons.prems(1) by simp
  have len: "start p + 1 < int (length w1)"
    using w1(2) p by (simp split: if_splits)
  have range': "\<forall>x \<in> set (pre @ rest).
      0 \<le> start x \<and> start x \<le> end x \<and> end x + 1 < int (length w1)"
  proof
    fix x assume x: "x \<in> set (pre @ rest)"
    with below have "end x < start p" by blast
    with len have "end x + 1 < int (length w1)" by simp
    with Cons.prems(2) x show "0 \<le> start x \<and> start x \<le> end x \<and> end x + 1 < int (length w1)"
      by simp
  qed
  from Cons.IH[OF sorted' range'] obtain w where
    w: "splice_loop pre w1 = Inr w"
       "int (length w) = int (length w1)
              - sum_list (map (\<lambda>x. if suggest x = None then 0 else end x - start x) pre)"
       "\<forall>x \<in> set rest. end x + 1 < int (length w)"
    by blast
  show ?case using w1 w by simp
qed

lemma sorted_wrt_refine:
  "sorted_wrt P xs \<Longrightarrow> distinct xs \<Longrightarrow>
   (\<And>x y. x \<in> set xs \<Longrightarrow> y \<in> set xs \<Longrightarrow> x \<noteq> y \<Longrightarrow> P x y \<Longrightarrow> Q x y) \<Longrightarrow>
   sorted_wrt Q xs"
  by (induction xs) auto

lemma set_sorted_reverse: "set (sorted_reverse (sort_ascending a)) = set a"
  by (simp add: sorted_reverse_def sort_ascending_def)

lemma chain_of_sorted:
  assumes "non_overlapping a" and "\<forall>x \<in> set a. start x \<le> end x"
  shows "sorted_wrt (\<lambda>x y. end y < start x) (sorted_reverse (sort_ascending a))"
proof -
  let ?L = "sort_key sort_keyfn (rev (sort_key sort_keyfn a))"
  have s: "sorted_wrt (\<lambda>x y. sort_keyfn x \<le> sort_keyfn y) ?L"
    using sorted_sort_key[of sort_keyfn "rev (sort_key sort_keyfn a)"]
    by (simp only: sorted_map)
  have d: "distinct ?L" using assms(1) by (simp add: non_overlapping_def)
  have st: "set ?L = set a" by simp
  have "sorted_wrt (\<lambda>x y. end x < start y) ?L"
  proof (rule sorted_wrt_refine[OF s d])
    fix x y assume "x \<in> set ?L" "y \<in> set ?L" "x \<noteq> y" "sort_keyfn x \<le> sort_keyfn y"
    then have xy: "x \<in> set a" "y \<in> set a" "x \<noteq> y" and le: "start x \<le> start y"
      by (auto simp: sort_keyfn_def)
    from xy assms(1) have "\<not> overlap x y" by (auto simp: non_overlapping_def)
    moreover from xy assms(2) have "start y \<le> end y" by blast
    ultimately show "end x < start y" using le by (auto simp: overlap_def)
  qed
  then show ?thesis
    by (simp add: sorted_reverse_def sort_ascending_def sorted_wrt_rev)
qed

text \<open>The whole pass on a sentence ends without an error, and the token count
  decreases by the sum of \<open>end - start\<close> over the annotations that carry a
  suggestion.\<close>

lemma splice_total:
  assumes "non_overlapping a" and "index_correct (length toklist) a"
  shows "\<exists>w. splice a toklist = Inr w \<and>
           int (length w) = int (length toklist)
             - sum_list (map (\<lambda>x. if suggest x = None then 0 else end x - start x)
                 (sorted_reverse (sort_ascending a)))"
proof -
  have ic: "\<forall>x \<in> set a. 0 \<le> start x \<and> start x \<le> end x \<and> end x + 1 < int (length toklist)"
    using assms(2) by (simp add: index_correct_def)
  have chain: "sorted_wrt (\<lambda>x y. end y < start x) (sorted_reverse (sort_ascending a) @ [])"
    using chain_of_sorted[OF assms(1)] ic by simp
  have rng: "\<forall>x \<in> set (sorted_reverse (sort_ascending a) @ []).
      0 \<le> start x \<and> start x \<le> end x \<and> end x + 1 < int (length toklist)"
    using ic set_sorted_reverse[of a] by simp
  from splice_loop_prefix[OF chain rng] show ?thesis by (auto simp: splice_def)
qed







subsection \<open>The two sort calls\<close>







subsection \<open>check_grammar and test_grammar\<close>

lemma check_loop_append:
  "check_loop ext opts st (xs @ ys)
   = (case check_loop ext opts st xs of Inl e \<Rightarrow> Inl e | Inr st' \<Rightarrow> check_loop ext opts st' ys)"
  by (induction xs arbitrary: st) (simp_all split: sum.splits)

lemma test_loop_append:
  "test_loop ext opts st (xs @ ys)
   = (case test_loop ext opts st xs of Inl e \<Rightarrow> Inl e | Inr st' \<Rightarrow> test_loop ext opts st' ys)"
  by (induction xs arbitrary: st) (simp_all split: sum.splits)

text \<open>
  Claim C10. When the checker returns no result for a sentence, the body of
  the loop returns the state it was given: no entry is appended to the
  accumulator, no annotation line is buffered, the running offset is the same,
  and no error is raised. The loop over the sentences then gives the result
  it gives without that sentence, in \<open>check_grammar\<close> and in
  \<open>test_grammar\<close>.
\<close>

theorem skip_unchecked:
  assumes "check_tokens ext toklist = None"
  shows "check_sentence ext opts st toklist = Inr st \<and>
         test_sentence ext opts st toklist = Inr st \<and>
         check_loop ext opts st (before @ toklist # rest) = check_loop ext opts st (before @ rest) \<and>
         test_loop ext opts st (before @ toklist # rest) = test_loop ext opts st (before @ rest)"
proof -
  have c: "\<And>s. check_sentence ext opts s toklist = Inr s"
    using assms by (simp add: check_sentence_def)
  have t: "\<And>s. test_sentence ext opts s toklist = Inr s"
    using assms by (simp add: test_sentence_def)
  have cl: "check_loop ext opts st (before @ toklist # rest) = check_loop ext opts st (before @ rest)"
    by (simp add: check_loop_append c split: sum.splits)
  have tl: "test_loop ext opts st (before @ toklist # rest) = test_loop ext opts st (before @ rest)"
    by (simp add: test_loop_append t split: sum.splits)
  show ?thesis using c t cl tl by simp
qed

theorem skip_unchecked_witness:
  "check_tokens example_ext_skip toks4 = None \<and>
   check_sentence example_ext_skip default_options init_state toks4 = Inr init_state \<and>
   check_loop example_ext_skip default_options init_state ([toks_teh] @ toks4 # [toks_teh])
     = check_loop example_ext_skip default_options init_state ([toks_teh] @ [toks_teh])"
proof -
  have n: "check_tokens example_ext_skip toks4 = None"
    by (simp add: example_ext_skip_def)
  from skip_unchecked [OF n, of default_options init_state "[toks_teh]" "[toks_teh]"] n
  show ?thesis by blast
qed

lemma check_sentence_annlist:
  assumes "check_sentence ext opts st toklist = Inr st'" and "annlist st = []"
    and "\<not> (get_print_all opts False \<and> opt_annotations opts \<and>
             (format opts = lit ''text'' \<or> format opts = lit ''textplustoks''))"
  shows "annlist st' = []"
proof (cases "check_tokens ext toklist")
  case None
  then show ?thesis using assms by (simp add: check_sentence_def)
next
  case (Some sent)
  show ?thesis
  proof (cases "format opts = lit ''text'' \<or> format opts = lit ''textplustoks''")
    case True
    then have "get_print_all opts False \<longrightarrow> \<not> opt_annotations opts" using assms(3) by blast
    then have e: "\<And>a t. snd (echo_annotations ext opts a t []) = []"
      by (auto simp: echo_annotations_def Let_def)
    show ?thesis using assms(1,2) Some True e
      by (auto simp: check_sentence_def Let_def split: sum.splits)
  next
    case False
    then show ?thesis using assms(1,2) Some
      by (auto simp: check_sentence_def Let_def split: sum.splits if_splits)
  qed
qed

lemma check_loop_annlist:
  assumes "check_loop ext opts st sents = Inr st'" and "annlist st = []"
    and "\<not> (get_print_all opts False \<and> opt_annotations opts \<and>
             (format opts = lit ''text'' \<or> format opts = lit ''textplustoks''))"
  shows "annlist st' = []"
  using assms
proof (induction sents arbitrary: st)
  case Nil
  then show ?case by simp
next
  case (Cons s sents)
  from Cons.prems(1) obtain st1 where
    s1: "check_sentence ext opts st s = Inr st1" and l: "check_loop ext opts st1 sents = Inr st'"
    by (auto split: sum.splits)
  have "annlist st1 = []" using check_sentence_annlist[OF s1 Cons.prems(2,3)] .
  then show ?case using Cons.IH[OF l _ Cons.prems(3)] by simp
qed

text \<open>
  Claim C4, as the source has it. When the loop of \<open>check_grammar\<close> ends
  without an error, the result is the accumulated entries joined by a single
  space when \<open>print_all\<close> is true or not given, and by a newline when it is
  false, whatever the format: the entries of the json and csv formats are
  joined like those of the text and m2 formats. The buffered annotation lines
  follow on lines of their own; the buffer is empty at the end unless the
  format is a text format and both \<open>annotations\<close> and \<open>print_all\<close> are given
  as true. The end of \<open>check_spelling\<close> joins its entries in the same way,
  by its own reading \<open>p\<close> of \<open>print_all\<close>.
\<close>

theorem accumulation_join:
  assumes "check_loop ext opts init_state (sentence_stream (TOK_END ext) toks) = Inr st"
  shows "check_grammar ext opts toks
           = Inr (join (if get_print_all opts True then SP else NL) (accumul st)
                  @ (if annlist st = [] then [] else NL @ join NL (annlist st))) \<and>
         (annlist st \<noteq> [] \<longrightarrow>
            print_all opts = Some True \<and> opt_annotations opts \<and>
            (format opts = lit ''text'' \<or> format opts = lit ''textplustoks'')) \<and>
         check_spelling_output p unisum [] = join (if p then SP else NL) unisum"
proof -
  have inv: "annlist st = []"
    if "\<not> (get_print_all opts False \<and> opt_annotations opts \<and>
             (format opts = lit ''text'' \<or> format opts = lit ''textplustoks''))"
    using check_loop_annlist[OF assms _ that] by (simp add: init_state_def)
  have some: "get_print_all opts False \<longleftrightarrow> print_all opts = Some True"
    by (cases "print_all opts") (auto simp: get_print_all_def)
  have out: "check_grammar ext opts toks
           = Inr (join (if get_print_all opts True then SP else NL) (accumul st)
                  @ (if annlist st = [] then [] else NL @ join NL (annlist st)))"
  proof (cases "get_print_all opts True")
    case True
    then show ?thesis using assms by (simp add: check_grammar_def final_output_def)
  next
    case False
    then have "\<not> get_print_all opts False"
      by (cases "print_all opts") (auto simp: get_print_all_def)
    then have "annlist st = []" using inv by blast
    then show ?thesis using assms False by (simp add: check_grammar_def final_output_def)
  qed
  have sp: "check_spelling_output p unisum [] = join (if p then SP else NL) unisum"
    by (simp add: check_spelling_output_def)
  show ?thesis using inv some out sp by blast
qed

lemma sent_teh: "sentence_stream (TOK_END example_ext) (toks_teh @ toks_teh) = [toks_teh, toks_teh]"
  by (simp add: sentence_stream_def example_ext_def example_END_def toks_teh_def
        begin_tok_def end_tok_def word_tok_def)

lemma sent_teh1: "sentence_stream (TOK_END example_ext) toks_teh = [toks_teh]"
  by (simp add: sentence_stream_def example_ext_def example_END_def toks_teh_def
        begin_tok_def end_tok_def word_tok_def)

lemma csv_line_the: "csv_line example_ext ann_the = lit ''S004,teh,the,0,0,None''"
  by (simp add: csv_line_def example_ext_def ann_the_def str_int_def lit_def)

lemma m2_line_the: "m2_line ann_the = lit ''A 0 0|||S004|||the|||REQUIRED|||-NONE-|||0''"
  by (simp add: m2_line_def ann_the_def str_int_def lit_def)

lemma detok_teh: "detokenize example_ext toks_teh = lit ''teh''"
  by (simp add: example_ext_def example_detokenize_def toks_teh_def begin_tok_def end_tok_def
        word_tok_def or_empty_def)

lemma checker_teh:
  "check_tokens example_ext toks_teh
   = Some \<lparr>tokens = toks_teh, tree = None, terminals = None, tidy_text = lit ''the'',
           annotations = [ann_the]\<rparr>"
  by (simp add: example_ext_def example_checker_def)

lemma csv_sentence_teh:
  "check_sentence example_ext csv_opts st toks_teh
   = Inr \<lparr>accumul = accumul st @ [lit ''S004,teh,the,0,0,None''],
          doc_offset = snd (track_offsets (doc_offset st) toks_teh),
          annlist = annlist st\<rparr>"
proof -
  have f: "(format csv_opts = lit ''text'') = False"
    "(format csv_opts = lit ''textplustoks'') = False"
    "(format csv_opts = lit ''json'') = False" "(format csv_opts = lit ''csv'') = True"
    by (simp_all add: csv_opts_def lit_def)
  show ?thesis
    by (simp add: check_sentence_def checker_teh token_dicts_def f sort_ascending_def
          csv_line_the Let_def del: append_eq_append_conv)
qed

lemma csv_loop_teh:
  "check_loop example_ext csv_opts init_state [toks_teh, toks_teh]
   = Inr \<lparr>accumul = [lit ''S004,teh,the,0,0,None'', lit ''S004,teh,the,0,0,None''],
          doc_offset = snd (track_offsets (snd (track_offsets 0 toks_teh)) toks_teh),
          annlist = []\<rparr>"
  by (simp add: csv_sentence_teh init_state_def)

theorem accumulation_join_witness:
  "check_loop example_ext csv_opts init_state
      (sentence_stream (TOK_END example_ext) (toks_teh @ toks_teh))
     = Inr \<lparr>accumul = [lit ''S004,teh,the,0,0,None'', lit ''S004,teh,the,0,0,None''],
            doc_offset = snd (track_offsets (snd (track_offsets 0 toks_teh)) toks_teh),
            annlist = []\<rparr> \<and>
   check_grammar example_ext csv_opts (toks_teh @ toks_teh)
     = Inr (lit ''S004,teh,the,0,0,None'' @ SP @ lit ''S004,teh,the,0,0,None'')"
proof -
  have l: "check_loop example_ext csv_opts init_state
      (sentence_stream (TOK_END example_ext) (toks_teh @ toks_teh))
     = Inr \<lparr>accumul = [lit ''S004,teh,the,0,0,None'', lit ''S004,teh,the,0,0,None''],
            doc_offset = snd (track_offsets (snd (track_offsets 0 toks_teh)) toks_teh),
            annlist = []\<rparr>"
    by (simp only: sent_teh csv_loop_teh)
  have p: "get_print_all csv_opts True" by (simp add: csv_opts_def get_print_all_def)
  from accumulation_join [OF l] p l show ?thesis by simp
qed

theorem space_join_counterexample:
  "check_grammar example_ext csv_opts (toks_teh @ toks_teh)
     = Inr (lit ''S004,teh,the,0,0,None'' @ SP @ lit ''S004,teh,the,0,0,None'') \<and>
   check_grammar example_ext csv_opts (toks_teh @ toks_teh)
     \<noteq> Inr (lit ''S004,teh,the,0,0,None'' @ NL @ lit ''S004,teh,the,0,0,None'')"
proof -
  have p: "get_print_all csv_opts True" by (simp add: csv_opts_def get_print_all_def)
  have "check_grammar example_ext csv_opts (toks_teh @ toks_teh)
     = Inr (lit ''S004,teh,the,0,0,None'' @ SP @ lit ''S004,teh,the,0,0,None'')"
    by (simp only: check_grammar_def sent_teh csv_loop_teh) (simp add: final_output_def p)
  then show ?thesis by (simp add: SP_def NL_def)
qed

lemma m2_line_scenario:
  "m2_line \<lparr>start = 0, end = 1, code = lit ''SPELL'', text = [], detail = None,
            suggest = Some [114, 233, 116, 116], suggestlist = None, ann_original = None\<rparr>
   = lit ''A 0 1|||SPELL|||'' @ [114, 233, 116, 116] @ lit ''|||REQUIRED|||-NONE-|||0''"
  by (simp add: m2_line_def str_int_def lit_def)

text \<open>
  Claim C3, as the source has it. In the m2 format, for a sentence that the
  checker returns a result for, \<open>check_grammar\<close> appends exactly: one entry
  \<open>S\<close>, a space and the detokenized text of the sentence's token list as it
  came from the segmenter (the text that the json format reports as
  \<open>original\<close>; no suggestion of an annotation is spliced into it); then one
  entry per annotation, in ascending order of \<open>(start, end)\<close>, of the form
  \<^verbatim>\<open>A <start> <end>|||<code>|||<suggest>|||REQUIRED|||-NONE-|||0\<close>; then one
  empty entry. The counterexample below has a sentence whose corrected text
  differs from the text of its \<open>S\<close> entry.
\<close>

theorem m2_unit:
  assumes "format opts = lit ''m2''" and "check_tokens ext toklist = Some sent"
    and "token_dicts sent = Inr tds"
  shows "\<exists>st'. check_sentence ext opts st toklist = Inr st' \<and>
           accumul st' = accumul st @ [lit ''S '' @ detokenize ext toklist]
                           @ map m2_line (sort_ascending (annotations sent)) @ [[]] \<and>
           sorted (map sort_keyfn (sort_ascending (annotations sent))) \<and>
           mset (sort_ascending (annotations sent)) = mset (annotations sent) \<and>
           m2_line mann = lit ''A '' @ str_int (start mann) @ lit '' '' @ str_int (end mann)
              @ lit ''|||'' @ code mann @ lit ''|||'' @ format_opt (suggest mann)
              @ lit ''|||REQUIRED|||-NONE-|||0''"
proof -
  have f: "format opts \<noteq> lit ''text''" "format opts \<noteq> lit ''textplustoks''"
    "format opts \<noteq> lit ''json''" "format opts \<noteq> lit ''csv''"
    using assms(1) by (simp_all add: lit_def)
  have "check_sentence ext opts st toklist
        = Inr \<lparr>accumul = accumul st @ [lit ''S '' @ detokenize ext toklist]
                           @ map m2_line (sort_ascending (annotations sent)) @ [[]],
               doc_offset = snd (track_offsets (doc_offset st) toklist),
               annlist = annlist st\<rparr>"
    using assms f by (simp add: check_sentence_def Let_def)
  moreover have "sorted (map sort_keyfn (sort_ascending (annotations sent)))"
    by (simp add: sort_ascending_def)
  moreover have "mset (sort_ascending (annotations sent)) = mset (annotations sent)"
    by (simp add: sort_ascending_def)
  ultimately show ?thesis by (simp add: m2_line_def)
qed

theorem m2_unit_witness:
  "format m2_opts = lit ''m2'' \<and>
   (\<exists>st'. check_sentence example_ext m2_opts init_state toks_teh = Inr st' \<and>
      accumul st' = [lit ''S teh'', lit ''A 0 0|||S004|||the|||REQUIRED|||-NONE-|||0'', []])"
proof -
  have f: "format m2_opts = lit ''m2''" by (simp add: m2_opts_def)
  have t: "token_dicts \<lparr>tokens = toks_teh, tree = None, terminals = None, tidy_text = lit ''the'',
           annotations = [ann_the]\<rparr>
     = Inr (map (\<lambda>d. \<lparr>t_k = kind d, t_x = txt d, t_o = py_or (original d) (txt d)\<rparr>) toks_teh)"
    by (simp add: token_dicts_def)
  from m2_unit [OF f checker_teh t, of init_state] obtain st' where
    "check_sentence example_ext m2_opts init_state toks_teh = Inr st'"
    "accumul st' = accumul init_state @ [lit ''S '' @ detokenize example_ext toks_teh]
         @ map m2_line (sort_ascending [ann_the]) @ [[]]"
    by auto
  then show ?thesis using f
    by (auto simp add: init_state_def detok_teh m2_line_the sort_ascending_def lit_def)
qed

theorem m2_source_line_counterexample:
  "check_grammar example_ext m2_opts toks_teh
     = Inr (lit ''S teh'' @ NL @ lit ''A 0 0|||S004|||the|||REQUIRED|||-NONE-|||0'' @ NL) \<and>
   check_grammar example_ext text_opts toks_teh = Inr (lit ''the'') \<and>
   lit ''S teh'' \<noteq> lit ''S '' @ lit ''the''"
proof -
  have fm: "(format m2_opts = lit ''text'') = False"
    "(format m2_opts = lit ''textplustoks'') = False"
    "(format m2_opts = lit ''json'') = False" "(format m2_opts = lit ''csv'') = False"
    "(format m2_opts = lit ''m2'') = True"
    by (simp_all add: m2_opts_def lit_def)
  have pm: "\<not> get_print_all m2_opts True" by (simp add: m2_opts_def get_print_all_def)
  have pt: "\<not> get_print_all text_opts True" by (simp add: text_opts_def get_print_all_def)
  have m: "check_sentence example_ext m2_opts init_state toks_teh
     = Inr \<lparr>accumul = [lit ''S teh'', lit ''A 0 0|||S004|||the|||REQUIRED|||-NONE-|||0'', []],
            doc_offset = snd (track_offsets 0 toks_teh), annlist = []\<rparr>"
    by (simp add: check_sentence_def checker_teh token_dicts_def fm sort_ascending_def
          m2_line_the detok_teh Let_def init_state_def)
       (simp add: lit_def)
  have a: "check_grammar example_ext m2_opts toks_teh
     = Inr (lit ''S teh'' @ NL @ lit ''A 0 0|||S004|||the|||REQUIRED|||-NONE-|||0'' @ NL)"
    by (simp add: check_grammar_def sent_teh1 m final_output_def pm)
  have sp: "splice_loop (sorted_reverse (sort_ascending [ann_the])) toks_teh
            = Inr [begin_tok, (word_tok ''teh'')\<lparr>txt := Some (lit ''the'')\<rparr>, end_tok]"
    by (simp add: sorted_reverse_def sort_ascending_def splice_step_def py_index_def ann_the_def
          toks_teh_def)
  have dt: "detokenize example_ext [begin_tok, (word_tok ''teh'')\<lparr>txt := Some (lit ''the'')\<rparr>, end_tok]
            = lit ''the''"
    by (simp add: example_ext_def example_detokenize_def begin_tok_def end_tok_def
        word_tok_def or_empty_def lit_def)
  have ft: "(format text_opts = lit ''text'') = True" "\<not> opt_annotations text_opts"
    by (simp_all add: text_opts_def)
  have t: "check_sentence example_ext text_opts init_state toks_teh
     = Inr \<lparr>accumul = [lit ''the''], doc_offset = snd (track_offsets 0 toks_teh), annlist = []\<rparr>"
    by (simp add: check_sentence_def checker_teh token_dicts_def ft sp dt echo_annotations_def
          Let_def init_state_def)
  have b: "check_grammar example_ext text_opts toks_teh = Inr (lit ''the'')"
    by (simp add: check_grammar_def sent_teh1 t final_output_def pt)
  have c: "lit ''S teh'' \<noteq> lit ''S '' @ lit ''the''" by (simp add: lit_def)
  show ?thesis using a b c by blast
qed

end
